theory Spec2Isabelle
  imports Main "HOL-Library.AList"
begin

section \<open>The statistics table and the coder of fse.py\<close>

text \<open>
  Python integers are unbounded, so codes, frequencies and cumulative offsets are
  \<^typ>\<open>int\<close>; Python's \<open>divmod\<close> is floor division, as \<open>div\<close> and \<open>mod\<close> on \<^typ>\<open>int\<close>
  are. The exceptions the source can raise on well-typed input are values of \<open>error\<close>:
  \<open>KeyError\<close> from the dictionary lookup in \<open>encode\<close>, \<open>ValueError\<close> from
  \<open>get_by_cdf\<close>, \<open>ZeroDivisionError\<close> from \<open>divmod\<close> with a zero divisor.
\<close>

datatype error = KeyError | ValueError | ZeroDivisionError

text \<open>One value of the ordered dictionary: \<open>{'symb': symb, 'prob': prob, 'cdf': total}\<close>.\<close>

record 's SymbolStat =
  symb :: 's
  prob :: int
  cdf :: int

text \<open>
  \<open>Statistics\<close> is an \<open>OrderedDict\<close> with an attribute \<open>total\<close>: the items in
  insertion order, and the running total.
\<close>

record 's Statistics =
  entries :: "('s \<times> 's SymbolStat) list"
  total :: int

text \<open>
  \<open>Statistics.__init__\<close>: \<open>total\<close> starts at 1; for each item of \<open>prob_dict\<close>, in
  order, the entry is stored under its symbol with the current total as \<open>cdf\<close> and the
  total grows by \<open>prob\<close>. Storing under a key of an ordered dictionary replaces the
  value in place when the key is present and appends otherwise, which is
  \<^const>\<open>AList.update\<close>. The argument is a dictionary, so the list of its items has
  distinct keys.
\<close>

definition Statistics_setitem ::
  "'s \<times> int \<Rightarrow> 's Statistics \<Rightarrow> 's Statistics" where
  "Statistics_setitem item st =
     (case item of (s, p) \<Rightarrow>
        \<lparr>entries = AList.update s \<lparr>symb = s, prob = p, cdf = total st\<rparr> (entries st),
         total = total st + p\<rparr>)"

definition Statistics_init :: "('s \<times> int) list \<Rightarrow> 's Statistics" where
  "Statistics_init prob_dict = fold Statistics_setitem prob_dict \<lparr>entries = [], total = 1\<rparr>"

text \<open>
  The call \<open>Statistics(prob_dict)\<close> as an expression that returns or raises. The body of
  \<open>__init__\<close> has no \<open>raise\<close> and no operation that fails on symbols paired with
  integers: it checks neither emptiness nor the sign of a frequency.
\<close>

definition Statistics_construct :: "('s \<times> int) list \<Rightarrow> error + 's Statistics" where
  "Statistics_construct prob_dict = Inr (Statistics_init prob_dict)"

text \<open>
  \<open>bisect.bisect_right(a, x)\<close> of the standard library, as CPython runs it:
  \<open>lo, hi = 0, len(a)\<close>; while \<open>lo < hi\<close>: \<open>mid = (lo + hi) // 2\<close>; if \<open>x < a[mid]\<close> then
  \<open>hi = mid\<close> else \<open>lo = mid + 1\<close>; return \<open>lo\<close>.
\<close>

function bisect_right_loop :: "int list \<Rightarrow> int \<Rightarrow> nat \<Rightarrow> nat \<Rightarrow> nat" where
  "bisect_right_loop a x lo hi =
     (if lo < hi then
        (let mid = (lo + hi) div 2
         in if x < a ! mid then bisect_right_loop a x lo mid
            else bisect_right_loop a x (mid + 1) hi)
      else lo)"
  by pat_completeness auto
termination
  by (relation "measure (\<lambda>(a, x, lo, hi). hi - lo)") auto

definition bisect_right :: "int list \<Rightarrow> int \<Rightarrow> nat" where
  "bisect_right a x = bisect_right_loop a x 0 (length a)"

text \<open>
  \<open>list(self.values())\<close>, then \<open>Statistics.get_by_cdf\<close>: the values in order, the insertion point of the argument
  among their \<open>cdf\<close>s, \<open>ValueError\<close> when that point is 0, else the value before it.
\<close>

definition Statistics_values :: "'s Statistics \<Rightarrow> 's SymbolStat list" where
  "Statistics_values st = map snd (entries st)"

definition get_by_cdf :: "'s Statistics \<Rightarrow> int \<Rightarrow> error + 's SymbolStat" where
  "get_by_cdf st c =
     (let values = Statistics_values st;
          idx = bisect_right (map cdf values) c
      in if idx = 0 then Inl ValueError else Inr (values ! (idx - 1)))"

text \<open>\<open>FSECoder\<close> holds the table built from the frequencies it is given.\<close>

record 's FSECoder =
  stats :: "'s Statistics"

definition FSECoder_init :: "('s \<times> int) list \<Rightarrow> 's FSECoder" where
  "FSECoder_init probs = \<lparr>stats = Statistics_init probs\<rparr>"

text \<open>
  \<open>FSECoder.encode\<close>: the loop over the symbols with the accumulator \<open>enc\<close>. The lookup
  \<open>self.stats[symb]\<close> raises \<open>KeyError\<close> on an absent symbol, \<open>divmod\<close> raises
  \<open>ZeroDivisionError\<close> on a zero frequency.
\<close>

fun encode_loop :: "'s FSECoder \<Rightarrow> int \<Rightarrow> 's list \<Rightarrow> error + int" where
  "encode_loop c enc [] = Inr enc"
| "encode_loop c enc (s # symbs) =
     (case map_of (entries (stats c)) s of
        None \<Rightarrow> Inl KeyError
      | Some st \<Rightarrow>
          if prob st = 0 then Inl ZeroDivisionError
          else encode_loop c
                 (total (stats c) * (enc div prob st) + enc mod prob st + cdf st) symbs)"

definition encode :: "'s FSECoder \<Rightarrow> 's list \<Rightarrow> error + int" where
  "encode c symbs = encode_loop c 0 symbs"

text \<open>
  One pass through the body of the loop of \<open>FSECoder.decode\<close>: the new accumulator and
  the symbol to put in front of the output, or the error raised.
\<close>

definition decode_step :: "'s FSECoder \<Rightarrow> int \<Rightarrow> error + (int \<times> 's)" where
  "decode_step c enc =
     (if total (stats c) = 0 then Inl ZeroDivisionError
      else
        (let d = enc div total (stats c); m = enc mod total (stats c)
         in case get_by_cdf (stats c) m of
              Inl e \<Rightarrow> Inl e
            | Inr st \<Rightarrow> Inr (prob st * d + m - cdf st, symb st)))"

text \<open>
  The loop \<open>while enc > 0\<close> itself. Nothing in the source bounds it, so the model is a
  partial function: \<open>None\<close> is a loop that never ends, \<open>Some (Inl e)\<close> a raised error,
  \<open>Some (Inr symbs)\<close> the returned list. \<open>symbs.insert(0, s)\<close> is \<open>s # symbs\<close>.
\<close>

partial_function (option) decode_loop ::
  "'s FSECoder \<Rightarrow> int \<Rightarrow> 's list \<Rightarrow> (error + 's list) option" where
  "decode_loop c enc symbs =
     (if enc > 0 then
        (case decode_step c enc of
           Inl e \<Rightarrow> Some (Inl e)
         | Inr (enc', s) \<Rightarrow> decode_loop c enc' (s # symbs))
      else Some (Inr symbs))"

declare decode_loop.simps [code]

definition decode :: "'s FSECoder \<Rightarrow> int \<Rightarrow> (error + 's list) option" where
  "decode c enc = decode_loop c enc []"

subsection \<open>Closed forms used in the proofs\<close>

text \<open>
  The items a run of \<open>__init__\<close> appends when the running total is \<open>t\<close> and no key
  repeats, and the entry it stores at position \<open>i\<close>.
\<close>

fun table_from :: "int \<Rightarrow> ('s \<times> int) list \<Rightarrow> ('s \<times> 's SymbolStat) list" where
  "table_from t [] = []"
| "table_from t ((s, p) # r) = (s, \<lparr>symb = s, prob = p, cdf = t\<rparr>) # table_from (t + p) r"

definition stat_at :: "('s \<times> int) list \<Rightarrow> nat \<Rightarrow> 's SymbolStat" where
  "stat_at pd i = \<lparr>symb = fst (pd ! i), prob = snd (pd ! i),
                   cdf = 1 + sum_list (take i (map snd pd))\<rparr>"

declare bisect_right_loop.simps [simp del]

section \<open>The table built by the constructor\<close>

lemma update_fresh: "k \<notin> fst ` set es \<Longrightarrow> AList.update k v es = es @ [(k, v)]"
  by (induction es) auto

lemma map_fst_table_from [simp]: "map fst (table_from t pd) = map fst pd"
  by (induction t pd rule: table_from.induct) auto

lemma length_table_from [simp]: "length (table_from t pd) = length pd"
  by (induction t pd rule: table_from.induct) auto

lemma fold_setitem:
  "distinct (map fst es @ map fst pd) \<Longrightarrow>
   fold Statistics_setitem pd \<lparr>entries = es, total = t\<rparr> =
     \<lparr>entries = es @ table_from t pd, total = t + sum_list (map snd pd)\<rparr>"
proof (induction pd arbitrary: es t)
  case Nil
  then show ?case by simp
next
  case (Cons item pd)
  obtain s p where item: "item = (s, p)" by (cases item)
  from Cons.prems item have fresh: "s \<notin> fst ` set es" by auto
  from Cons.prems item have d: "distinct (map fst (es @ [(s, \<lparr>symb = s, prob = p, cdf = t\<rparr>)]) @ map fst pd)"
    by auto
  show ?case
    using Cons.IH [OF d] fresh
    by (simp add: item Statistics_setitem_def update_fresh add.assoc)
qed

lemma Statistics_init_eq:
  "distinct (map fst pd) \<Longrightarrow>
   Statistics_init pd = \<lparr>entries = table_from 1 pd, total = 1 + sum_list (map snd pd)\<rparr>"
  using fold_setitem [of "[]" pd 1] by (simp add: Statistics_init_def)

lemma table_from_nth:
  "i < length pd \<Longrightarrow>
   table_from t pd ! i =
     (fst (pd ! i), \<lparr>symb = fst (pd ! i), prob = snd (pd ! i), cdf = t + sum_list (take i (map snd pd))\<rparr>)"
proof (induction t pd arbitrary: i rule: table_from.induct)
  case (1 t)
  then show ?case by simp
next
  case (2 t s p r)
  then show ?case by (cases i) (simp_all add: add.assoc)
qed

section \<open>Binary search\<close>

lemma bisect_right_loop_spec:
  "sorted a \<Longrightarrow> lo \<le> hi \<Longrightarrow> hi \<le> length a \<Longrightarrow>
   (\<forall>i<lo. a ! i \<le> x) \<Longrightarrow> (\<forall>i. hi \<le> i \<and> i < length a \<longrightarrow> x < a ! i) \<Longrightarrow>
   lo \<le> bisect_right_loop a x lo hi \<and> bisect_right_loop a x lo hi \<le> hi \<and>
   (\<forall>i<bisect_right_loop a x lo hi. a ! i \<le> x) \<and>
   (\<forall>i. bisect_right_loop a x lo hi \<le> i \<and> i < length a \<longrightarrow> x < a ! i)"
proof (induction a x lo hi rule: bisect_right_loop.induct)
  case (1 a x lo hi)
  show ?case
  proof (cases "lo < hi")
    case False
    then have "bisect_right_loop a x lo hi = lo"
      by (subst bisect_right_loop.simps) simp
    with False "1.prems" show ?thesis by simp
  next
    case True
    define mid where "mid = (lo + hi) div 2"
    have mid: "lo \<le> mid" "mid < hi" using True by (simp_all add: mid_def)
    show ?thesis
    proof (cases "x < a ! mid")
      case lt: True
      have above: "\<forall>i. mid \<le> i \<and> i < length a \<longrightarrow> x < a ! i"
      proof (intro allI impI)
        fix i assume i: "mid \<le> i \<and> i < length a"
        with \<open>sorted a\<close> have "a ! mid \<le> a ! i" by (simp add: sorted_nth_mono)
        with lt show "x < a ! i" by simp
      qed
      have r: "bisect_right_loop a x lo hi = bisect_right_loop a x lo mid"
        using True lt by (subst bisect_right_loop.simps) (simp add: mid_def Let_def)
      have "lo \<le> bisect_right_loop a x lo mid \<and> bisect_right_loop a x lo mid \<le> mid \<and>
         (\<forall>i<bisect_right_loop a x lo mid. a ! i \<le> x) \<and>
         (\<forall>i. bisect_right_loop a x lo mid \<le> i \<and> i < length a \<longrightarrow> x < a ! i)"
        using "1.IH"(1) [OF True mid_def lt \<open>sorted a\<close>] mid "1.prems" above by simp
      with mid show ?thesis unfolding r by auto
    next
      case ge: False
      have below: "\<forall>i<mid + 1. a ! i \<le> x"
      proof (intro allI impI)
        fix i assume i: "i < mid + 1"
        with \<open>sorted a\<close> mid "1.prems" have "a ! i \<le> a ! mid" by (simp add: sorted_nth_mono)
        with ge show "a ! i \<le> x" by simp
      qed
      have r: "bisect_right_loop a x lo hi = bisect_right_loop a x (mid + 1) hi"
        using True ge by (subst bisect_right_loop.simps) (simp add: mid_def Let_def)
      have "mid + 1 \<le> bisect_right_loop a x (mid + 1) hi \<and> bisect_right_loop a x (mid + 1) hi \<le> hi \<and>
         (\<forall>i<bisect_right_loop a x (mid + 1) hi. a ! i \<le> x) \<and>
         (\<forall>i. bisect_right_loop a x (mid + 1) hi \<le> i \<and> i < length a \<longrightarrow> x < a ! i)"
        using "1.IH"(2) [OF True mid_def ge \<open>sorted a\<close>] mid "1.prems" below by simp
      with mid show ?thesis unfolding r by auto
    qed
  qed
qed

lemma bisect_right_spec:
  assumes "sorted a"
  shows "bisect_right a x \<le> length a"
    and "\<forall>i<bisect_right a x. a ! i \<le> x"
    and "\<forall>i. bisect_right a x \<le> i \<and> i < length a \<longrightarrow> x < a ! i"
  using bisect_right_loop_spec [of a 0 "length a" x] assms
  by (simp_all add: bisect_right_def)

lemma bisect_right_zero:
  assumes "sorted a" and "a = [] \<or> x < a ! 0"
  shows "bisect_right a x = 0"
proof (rule ccontr)
  assume "bisect_right a x \<noteq> 0"
  then have pos: "0 < bisect_right a x" by simp
  with bisect_right_spec(1) [OF assms(1), of x] have "a \<noteq> []" by auto
  moreover from bisect_right_spec(2) [OF assms(1), of x] pos have "a ! 0 \<le> x" by blast
  ultimately show False using assms(2) by simp
qed

lemma bisect_right_Suc:
  assumes "sorted a" and "i < length a" and "a ! i \<le> x"
    and "Suc i < length a \<longrightarrow> x < a ! Suc i"
  shows "bisect_right a x = Suc i"
proof -
  let ?r = "bisect_right a x"
  have "i < ?r"
  proof (rule ccontr)
    assume "\<not> i < ?r"
    then have "?r \<le> i \<and> i < length a" using assms(2) by simp
    with bisect_right_spec(3) [OF assms(1), of x] have "x < a ! i" by blast
    with assms(3) show False by simp
  qed
  moreover have "?r \<le> Suc i"
  proof (rule ccontr)
    assume "\<not> ?r \<le> Suc i"
    then have lt: "Suc i < ?r" by simp
    with bisect_right_spec(1) [OF assms(1), of x] have "Suc i < length a" by simp
    with assms(4) have "x < a ! Suc i" by simp
    moreover from bisect_right_spec(2) [OF assms(1), of x] lt have "a ! Suc i \<le> x" by blast
    ultimately show False by simp
  qed
  ultimately show ?thesis by simp
qed

section \<open>Cumulative offsets and lookup by offset\<close>

lemma sum_take_Suc:
  "i < length ps \<Longrightarrow> sum_list (take (Suc i) ps) = sum_list (take i ps) + (ps ! i :: int)"
  by (simp add: take_Suc_conv_app_nth)

lemma sum_take_less:
  assumes pos: "\<forall>p\<in>set ps. (0::int) < p"
  shows "i < j \<Longrightarrow> j \<le> length ps \<Longrightarrow> sum_list (take i ps) < sum_list (take j ps)"
proof (induction j)
  case 0
  then show ?case by simp
next
  case (Suc j)
  from Suc.prems have j: "j < length ps" by simp
  with pos have step: "sum_list (take j ps) < sum_list (take (Suc j) ps)"
    by (simp add: sum_take_Suc)
  show ?case
  proof (cases "i = j")
    case True
    with step show ?thesis by simp
  next
    case False
    with Suc.prems have "i < j" by simp
    with Suc.IH j step show ?thesis by simp
  qed
qed

lemma sum_take_le:
  assumes pos: "\<forall>p\<in>set ps. (0::int) < p"
  shows "i \<le> j \<Longrightarrow> j \<le> length ps \<Longrightarrow> sum_list (take i ps) \<le> sum_list (take j ps)"
  using sum_take_less [OF pos, of i j] by (cases "i = j") simp_all

lemma sum_take_nonneg:
  assumes pos: "\<forall>p\<in>set ps. (0::int) < p"
  shows "0 \<le> sum_list (take i ps)"
proof (rule sum_list_nonneg)
  fix x assume "x \<in> set (take i ps)"
  then have "x \<in> set ps" by (rule in_set_takeD)
  with pos show "0 \<le> x" by auto
qed

lemma range_exists:
  assumes pos: "\<forall>p\<in>set ps. (0::int) < p"
  shows "0 \<le> v \<Longrightarrow> v < sum_list ps \<Longrightarrow>
         \<exists>i<length ps. sum_list (take i ps) \<le> v \<and> v < sum_list (take (Suc i) ps)"
  using pos
proof (induction ps rule: rev_induct)
  case Nil
  then show ?case by simp
next
  case (snoc p ps)
  show ?case
  proof (cases "v < sum_list ps")
    case True
    with snoc obtain i where "i < length ps" "sum_list (take i ps) \<le> v" "v < sum_list (take (Suc i) ps)"
      by auto
    then show ?thesis by (intro exI [of _ i]) simp
  next
    case False
    with snoc.prems show ?thesis by (intro exI [of _ "length ps"]) simp
  qed
qed

lemma cdfs_nth:
  "i < length pd \<Longrightarrow>
   map cdf (map snd (table_from t pd)) ! i = t + sum_list (take i (map snd pd))"
  by (simp add: table_from_nth)

lemma cdfs_sorted:
  assumes pos: "\<forall>p\<in>set (map snd pd). (0::int) < p"
  shows "sorted (map cdf (map snd (table_from t pd)))"
  unfolding sorted_iff_nth_mono
proof (intro allI impI)
  fix i j
  assume "i \<le> j" and "j < length (map cdf (map snd (table_from t pd)))"
  then have ij: "i \<le> j" "j < length pd" "i < length pd" by simp_all
  have "sum_list (take i (map snd pd)) \<le> sum_list (take j (map snd pd))"
    using sum_take_le [OF pos, of i j] ij by simp
  then show "map cdf (map snd (table_from t pd)) ! i \<le> map cdf (map snd (table_from t pd)) ! j"
    using ij by (simp only: cdfs_nth)
qed

lemma get_by_cdf_found:
  assumes d: "distinct (map fst pd)" and pos: "\<forall>p\<in>set (map snd pd). (0::int) < p"
    and i: "i < length pd"
    and lo: "cdf (stat_at pd i) \<le> v"
    and hi: "Suc i < length pd \<longrightarrow> v < cdf (stat_at pd (Suc i))"
  shows "get_by_cdf (Statistics_init pd) v = Inr (stat_at pd i)"
proof -
  let ?a = "map cdf (map snd (table_from 1 pd))"
  have "bisect_right ?a v = Suc i"
  proof (rule bisect_right_Suc [OF cdfs_sorted [OF pos]])
    show "i < length ?a" using i by simp
    show "?a ! i \<le> v" using lo i by (simp only: cdfs_nth) (simp add: stat_at_def)
    show "Suc i < length ?a \<longrightarrow> v < ?a ! Suc i"
    proof
      assume "Suc i < length ?a"
      then have s: "Suc i < length pd" by simp
      with hi show "v < ?a ! Suc i" by (simp only: cdfs_nth) (simp add: stat_at_def)
    qed
  qed
  then show ?thesis
    using i by (simp add: get_by_cdf_def Statistics_values_def Statistics_init_eq [OF d] table_from_nth stat_at_def)
qed

lemma get_by_cdf_below:
  assumes d: "distinct (map fst pd)" and pos: "\<forall>p\<in>set (map snd pd). (0::int) < p"
    and v: "v < 1"
  shows "get_by_cdf (Statistics_init pd) v = Inl ValueError"
proof -
  let ?a = "map cdf (map snd (table_from 1 pd))"
  have "?a = [] \<or> v < ?a ! 0"
  proof (cases pd)
    case Nil
    then show ?thesis by simp
  next
    case (Cons x xs)
    then have "0 < length pd" by simp
    then have "?a ! 0 = 1" by (simp only: cdfs_nth) simp
    with v show ?thesis by simp
  qed
  then have "bisect_right ?a v = 0"
    by (rule bisect_right_zero [OF cdfs_sorted [OF pos]])
  then show ?thesis
    by (simp add: get_by_cdf_def Statistics_values_def Statistics_init_eq [OF d])
qed

lemma total_init: "distinct (map fst pd) \<Longrightarrow> total (Statistics_init pd) = 1 + sum_list (map snd pd)"
  by (simp add: Statistics_init_eq)

lemma entries_init: "distinct (map fst pd) \<Longrightarrow> entries (Statistics_init pd) = table_from 1 pd"
  by (simp add: Statistics_init_eq)

lemma table_from_nth_stat: "i < length pd \<Longrightarrow> table_from 1 pd ! i = (fst (pd ! i), stat_at pd i)"
  by (simp add: table_from_nth stat_at_def)

lemma map_of_table_nth:
  assumes d: "distinct (map fst pd)" and i: "i < length pd"
  shows "map_of (table_from 1 pd) (fst (pd ! i)) = Some (stat_at pd i)"
proof -
  have "table_from 1 pd ! i \<in> set (table_from 1 pd)" using i by simp
  then have "(fst (pd ! i), stat_at pd i) \<in> set (table_from 1 pd)"
    using i by (simp add: table_from_nth_stat)
  moreover have "distinct (map fst (table_from 1 pd))" using d by simp
  ultimately show ?thesis by simp
qed

lemma map_of_table_Some:
  assumes "map_of (table_from 1 pd) s = Some st"
  shows "\<exists>i<length pd. s = fst (pd ! i) \<and> st = stat_at pd i"
proof -
  from assms have "(s, st) \<in> set (table_from 1 pd)" by (rule map_of_SomeD)
  then obtain i where "i < length (table_from 1 pd)" "table_from 1 pd ! i = (s, st)"
    by (auto simp: in_set_conv_nth)
  then show ?thesis by (auto simp: table_from_nth_stat)
qed

lemma map_of_table_None:
  "map_of (table_from 1 pd) s = None \<longleftrightarrow> s \<notin> fst ` set pd"
proof -
  have "fst ` set (table_from 1 pd) = fst ` set pd"
    by (metis map_fst_table_from set_map)
  then show ?thesis by (simp add: map_of_eq_None_iff)
qed

lemma stat_at_simps [simp]:
  "symb (stat_at pd i) = fst (pd ! i)"
  "prob (stat_at pd i) = snd (pd ! i)"
  "cdf (stat_at pd i) = 1 + sum_list (take i (map snd pd))"
  by (simp_all add: stat_at_def)

lemma stat_at_bounds:
  assumes pos: "\<forall>p\<in>set (map snd pd). (0::int) < p" and i: "i < length pd"
  shows "0 < prob (stat_at pd i)" and "1 \<le> cdf (stat_at pd i)"
    and "cdf (stat_at pd i) + prob (stat_at pd i) \<le> 1 + sum_list (map snd pd)"
    and "Suc i < length pd \<longrightarrow> cdf (stat_at pd (Suc i)) = cdf (stat_at pd i) + prob (stat_at pd i)"
proof -
  show "0 < prob (stat_at pd i)" using pos i by simp
  show "1 \<le> cdf (stat_at pd i)" using sum_take_nonneg [OF pos, of i] by simp
  have "sum_list (take (Suc i) (map snd pd)) \<le> sum_list (take (length (map snd pd)) (map snd pd))"
    using i by (intro sum_take_le [OF pos]) simp_all
  then show "cdf (stat_at pd i) + prob (stat_at pd i) \<le> 1 + sum_list (map snd pd)"
    using i by (simp add: sum_take_Suc)
  show "Suc i < length pd \<longrightarrow> cdf (stat_at pd (Suc i)) = cdf (stat_at pd i) + prob (stat_at pd i)"
    using i by (simp add: sum_take_Suc)
qed

lemma get_by_cdf_in_range:
  assumes d: "distinct (map fst pd)" and pos: "\<forall>p\<in>set (map snd pd). (0::int) < p"
    and i: "i < length pd"
    and lo: "cdf (stat_at pd i) \<le> v"
    and hi: "v < cdf (stat_at pd i) + prob (stat_at pd i)"
  shows "get_by_cdf (Statistics_init pd) v = Inr (stat_at pd i)"
  using get_by_cdf_found [OF d pos i lo] stat_at_bounds(4) [OF pos i] hi by simp

text \<open>One step of encode followed by one step of decode.\<close>

lemma decode_step_encode_step:
  assumes d: "distinct (map fst pd)" and pos: "\<forall>p\<in>set (map snd pd). (0::int) < p"
    and i: "i < length pd" and enc: "0 \<le> enc"
  defines "st \<equiv> stat_at pd i"
  defines "enc' \<equiv> total (Statistics_init pd) * (enc div prob st) + enc mod prob st + cdf st"
  shows "0 < enc'" and "decode_step (FSECoder_init pd) enc' = Inr (enc, fst (pd ! i))"
proof -
  let ?T = "total (Statistics_init pd)"
  have T: "?T = 1 + sum_list (map snd pd)" by (rule total_init [OF d])
  have p: "0 < prob st" and c: "1 \<le> cdf st" and top: "cdf st + prob st \<le> ?T"
    unfolding st_def T by (rule stat_at_bounds [OF pos i])+
  have m: "0 \<le> enc mod prob st" "enc mod prob st < prob st" using p by simp_all
  have q: "0 \<le> enc div prob st" using enc p by (simp add: pos_imp_zdiv_nonneg_iff)
  let ?r = "enc mod prob st + cdf st"
  have r: "0 \<le> ?r" "?r < ?T" using m c top by simp_all
  have Tpos: "0 < ?T" using r by simp
  have e: "enc' = ?T * (enc div prob st) + ?r" by (simp add: enc'_def)
  have "0 \<le> ?T * (enc div prob st)" using Tpos q by simp
  then show "0 < enc'" using c m unfolding e by linarith
  have dv: "enc' div ?T = enc div prob st"
    unfolding e using r Tpos by (simp add: div_pos_pos_trivial)
  have md: "enc' mod ?T = ?r"
    unfolding e using r by (simp add: mod_pos_pos_trivial)
  have g: "get_by_cdf (Statistics_init pd) ?r = Inr st"
    unfolding st_def
    by (rule get_by_cdf_in_range [OF d pos i]) (use m in \<open>simp_all add: st_def\<close>)
  have inv: "prob st * (enc div prob st) + ?r - cdf st = enc" by simp
  show "decode_step (FSECoder_init pd) enc' = Inr (enc, fst (pd ! i))"
    using Tpos by (simp add: decode_step_def FSECoder_init_def dv md g inv Let_def) (simp add: st_def)
qed

section \<open>The loops\<close>

lemma decode_loop_done: "enc \<le> 0 \<Longrightarrow> decode_loop c enc symbs = Some (Inr symbs)"
  by (subst decode_loop.simps) simp

lemma decode_loop_step:
  "0 < enc \<Longrightarrow> decode_step c enc = Inr (enc', s) \<Longrightarrow>
   decode_loop c enc symbs = decode_loop c enc' (s # symbs)"
  by (subst decode_loop.simps) simp

lemma decode_loop_error:
  "0 < enc \<Longrightarrow> decode_step c enc = Inl e \<Longrightarrow> decode_loop c enc symbs = Some (Inl e)"
  by (subst decode_loop.simps) simp

lemma encode_loop_known:
  assumes d: "distinct (map fst pd)" and pos: "\<forall>p\<in>set (map snd pd). (0::int) < p"
  shows "0 \<le> enc \<Longrightarrow> set symbs \<subseteq> fst ` set pd \<Longrightarrow>
         \<exists>n. encode_loop (FSECoder_init pd) enc symbs = Inr n \<and> 0 \<le> n \<and>
             (symbs \<noteq> [] \<longrightarrow> 1 \<le> n) \<and>
             (\<forall>acc. decode_loop (FSECoder_init pd) n acc =
                    decode_loop (FSECoder_init pd) enc (symbs @ acc))"
proof (induction symbs arbitrary: enc)
  case Nil
  then show ?case by simp
next
  case (Cons s symbs)
  let ?c = "FSECoder_init pd"
  from Cons.prems obtain i where i: "i < length pd" and s: "s = fst (pd ! i)"
    by (auto simp: in_set_conv_nth)
  let ?st = "stat_at pd i"
  let ?enc' = "total (Statistics_init pd) * (enc div prob ?st) + enc mod prob ?st + cdf ?st"
  have look: "map_of (entries (stats ?c)) s = Some ?st"
    unfolding s by (simp add: FSECoder_init_def entries_init [OF d] map_of_table_nth [OF d i])
  have p: "prob ?st \<noteq> 0" using stat_at_bounds(1) [OF pos i] by simp
  have gt: "0 < ?enc'" and back1: "decode_step ?c ?enc' = Inr (enc, s)"
    unfolding s using decode_step_encode_step [OF d pos i Cons.prems(1)] by simp_all
  have unf: "encode_loop ?c enc (s # symbs) = encode_loop ?c ?enc' symbs"
    using look p by (simp add: FSECoder_init_def)
  from Cons.prems have sub: "set symbs \<subseteq> fst ` set pd" by simp
  from gt have "0 \<le> ?enc'" by simp
  from Cons.IH [OF this sub] obtain n where
    n: "encode_loop ?c ?enc' symbs = Inr n" "0 \<le> n" "symbs \<noteq> [] \<longrightarrow> 1 \<le> n"
      "\<forall>acc. decode_loop ?c n acc = decode_loop ?c ?enc' (symbs @ acc)"
    by blast
  have "1 \<le> n"
  proof (cases symbs)
    case Nil
    with n(1) gt show ?thesis by simp
  next
    case Cons
    with n(3) show ?thesis by simp
  qed
  moreover have "\<forall>acc. decode_loop ?c n acc = decode_loop ?c enc ((s # symbs) @ acc)"
    using n(4) decode_loop_step [OF gt back1] by simp
  ultimately show ?case using n(1,2) unfolding unf by blast
qed

lemma decode_step_valid:
  assumes d: "distinct (map fst pd)" and pos: "\<forall>p\<in>set (map snd pd). (0::int) < p"
    and enc: "0 < enc"
  shows "(enc mod total (Statistics_init pd) = 0 \<and>
          decode_step (FSECoder_init pd) enc = Inl ValueError) \<or>
         (enc mod total (Statistics_init pd) \<noteq> 0 \<and>
          (\<exists>enc' s. decode_step (FSECoder_init pd) enc = Inr (enc', s) \<and>
                    0 \<le> enc' \<and> enc' < enc \<and> s \<in> fst ` set pd))"
proof -
  let ?T = "total (Statistics_init pd)"
  let ?ps = "map snd pd"
  have T: "?T = 1 + sum_list ?ps" by (rule total_init [OF d])
  have "0 \<le> sum_list (take (length ?ps) ?ps)" by (rule sum_take_nonneg [OF pos])
  then have Tpos: "0 < ?T" unfolding T by simp
  define m where "m = enc mod ?T"
  define q where "q = enc div ?T"
  have m: "0 \<le> m" "m < ?T" using Tpos by (simp_all add: m_def)
  have q: "0 \<le> q" using enc Tpos by (simp add: q_def pos_imp_zdiv_nonneg_iff)
  have split: "enc = ?T * q + m" by (simp add: m_def q_def)
  show ?thesis
  proof (cases "m = 0")
    case True
    then have "get_by_cdf (Statistics_init pd) m = Inl ValueError"
      by (intro get_by_cdf_below [OF d pos]) simp
    then have "decode_step (FSECoder_init pd) enc = Inl ValueError"
      using Tpos by (simp add: decode_step_def FSECoder_init_def m_def Let_def)
    with True show ?thesis by (simp add: m_def)
  next
    case False
    with m have "0 \<le> m - 1" "m - 1 < sum_list ?ps" unfolding T by simp_all
    from range_exists [OF pos this] obtain i where i: "i < length pd"
      and lo: "sum_list (take i ?ps) \<le> m - 1" and hi: "m - 1 < sum_list (take (Suc i) ?ps)"
      by auto
    let ?st = "stat_at pd i"
    have lo': "cdf ?st \<le> m" using lo by simp
    have hi': "m < cdf ?st + prob ?st" using hi i by (simp add: sum_take_Suc)
    have g: "get_by_cdf (Statistics_init pd) m = Inr ?st"
      by (rule get_by_cdf_in_range [OF d pos i lo' hi'])
    have p: "0 < prob ?st" and c: "1 \<le> cdf ?st" and top: "cdf ?st + prob ?st \<le> ?T"
      unfolding T by (rule stat_at_bounds [OF pos i])+
    let ?enc' = "prob ?st * q + m - cdf ?st"
    have step: "decode_step (FSECoder_init pd) enc = Inr (?enc', fst (pd ! i))"
      using Tpos g by (simp add: decode_step_def FSECoder_init_def m_def q_def Let_def)
    have "0 \<le> prob ?st * q" using p q by simp
    then have nonneg: "0 \<le> ?enc'" using lo' by linarith
    have "prob ?st \<le> ?T" using top c by linarith
    then have "prob ?st * q \<le> ?T * q" using q by (rule mult_right_mono)
    then have less: "?enc' < enc" using c unfolding split by linarith
    have "fst (pd ! i) \<in> fst ` set pd" using i by simp
    with step nonneg less False show ?thesis by (simp add: m_def)
  qed
qed

lemma decode_loop_total:
  assumes d: "distinct (map fst pd)" and pos: "\<forall>p\<in>set (map snd pd). (0::int) < p"
  shows "decode_loop (FSECoder_init pd) enc acc = Some (Inl ValueError) \<or>
         (\<exists>symbs. decode_loop (FSECoder_init pd) enc acc = Some (Inr symbs))"
proof (induction "nat enc" arbitrary: enc acc rule: less_induct)
  case less
  show ?case
  proof (cases "0 < enc")
    case False
    then show ?thesis by (simp add: decode_loop_done)
  next
    case True
    from decode_step_valid [OF d pos True] show ?thesis
    proof (elim disjE conjE exE)
      assume "decode_step (FSECoder_init pd) enc = Inl ValueError"
      from decode_loop_error [OF True this] show ?thesis by simp
    next
      fix enc' s
      assume st: "decode_step (FSECoder_init pd) enc = Inr (enc', s)"
        and b: "0 \<le> enc'" "enc' < enc"
      from b have "nat enc' < nat enc" by simp
      from less [OF this, of "s # acc"] show ?thesis
        unfolding decode_loop_step [OF True st] .
    qed
  qed
qed

text \<open>Encoding a sequence with a symbol that is not a key of the table raises.\<close>

lemma encode_loop_unknown:
  "\<exists>s\<in>set symbs. s \<notin> fst ` set (entries (stats c)) \<Longrightarrow>
   encode_loop c enc symbs = Inl KeyError \<or> encode_loop c enc symbs = Inl ZeroDivisionError"
proof (induction symbs arbitrary: enc)
  case Nil
  then show ?case by simp
next
  case (Cons s symbs)
  show ?case
  proof (cases "map_of (entries (stats c)) s")
    case None
    then show ?thesis by simp
  next
    case (Some st)
    then have "s \<in> fst ` set (entries (stats c))"
      by (metis map_of_eq_None_iff option.distinct(1))
    with Cons.prems have "\<exists>s\<in>set symbs. s \<notin> fst ` set (entries (stats c))" by auto
    from Cons.IH [OF this] Some show ?thesis by simp
  qed
qed

lemma encode_loop_unknown_nonzero:
  "\<exists>s\<in>set symbs. s \<notin> fst ` set (entries (stats c)) \<Longrightarrow>
   \<forall>st\<in>snd ` set (entries (stats c)). prob st \<noteq> 0 \<Longrightarrow>
   encode_loop c enc symbs = Inl KeyError"
proof (induction symbs arbitrary: enc)
  case Nil
  then show ?case by simp
next
  case (Cons s symbs)
  show ?case
  proof (cases "map_of (entries (stats c)) s")
    case None
    then show ?thesis by simp
  next
    case (Some st)
    then have mem: "(s, st) \<in> set (entries (stats c))" by (rule map_of_SomeD)
    then have "s \<in> fst ` set (entries (stats c))" by force
    with Cons.prems have ex: "\<exists>s\<in>set symbs. s \<notin> fst ` set (entries (stats c))" by auto
    from mem have "st \<in> snd ` set (entries (stats c))" by force
    with Cons.prems(2) have "prob st \<noteq> 0" by blast
    with Cons.IH [OF ex Cons.prems(2)] Some show ?thesis by simp
  qed
qed

text \<open>The values of the constructed table, and the ranges of its entries.\<close>

lemma values_init_nth:
  assumes d: "distinct (map fst pd)" and i: "i < length pd"
  shows "Statistics_values (Statistics_init pd) ! i = stat_at pd i"
  using i by (simp add: Statistics_values_def entries_init [OF d] table_from_nth_stat)

lemma values_init_length:
  "distinct (map fst pd) \<Longrightarrow> length (Statistics_values (Statistics_init pd)) = length pd"
  by (simp add: Statistics_values_def entries_init)

lemma stat_at_cdf_less:
  assumes pos: "\<forall>p\<in>set (map snd pd). (0::int) < p" and "i < j" and "j < length pd"
  shows "cdf (stat_at pd i) + prob (stat_at pd i) \<le> cdf (stat_at pd j)"
proof -
  have "sum_list (take (Suc i) (map snd pd)) \<le> sum_list (take j (map snd pd))"
    using assms(2,3) by (intro sum_take_le [OF pos]) simp_all
  then show ?thesis using assms(2,3) by (simp add: sum_take_Suc)
qed

lemma stat_at_range_unique:
  assumes pos: "\<forall>p\<in>set (map snd pd). (0::int) < p"
    and i: "i < length pd" "cdf (stat_at pd i) \<le> v" "v < cdf (stat_at pd i) + prob (stat_at pd i)"
    and j: "j < length pd" "cdf (stat_at pd j) \<le> v" "v < cdf (stat_at pd j) + prob (stat_at pd j)"
  shows "i = j"
proof (rule ccontr)
  assume "i \<noteq> j"
  then consider "i < j" | "j < i" by linarith
  then show False
  proof cases
    case 1
    from stat_at_cdf_less [OF pos 1 j(1)] i(3) j(2) show False by linarith
  next
    case 2
    from stat_at_cdf_less [OF pos 2 i(1)] j(3) i(2) show False by linarith
  qed
qed

lemma stat_at_range_exists:
  assumes pos: "\<forall>p\<in>set (map snd pd). (0::int) < p"
    and v: "1 \<le> v" "v < 1 + sum_list (map snd pd)"
  shows "\<exists>i<length pd. cdf (stat_at pd i) \<le> v \<and> v < cdf (stat_at pd i) + prob (stat_at pd i)"
proof -
  from v have "0 \<le> v - 1" "v - 1 < sum_list (map snd pd)" by simp_all
  from range_exists [OF pos this] obtain i where "i < length pd"
    "sum_list (take i (map snd pd)) \<le> v - 1" "v - 1 < sum_list (take (Suc i) (map snd pd))"
    by auto
  then show ?thesis by (intro exI [of _ i]) (simp add: sum_take_Suc)
qed

lemma values_init_set:
  assumes d: "distinct (map fst pd)"
  shows "e \<in> set (Statistics_values (Statistics_init pd)) \<longleftrightarrow> (\<exists>i<length pd. e = stat_at pd i)"
proof -
  have "e \<in> set (Statistics_values (Statistics_init pd)) \<longleftrightarrow>
        (\<exists>i<length (Statistics_values (Statistics_init pd)). Statistics_values (Statistics_init pd) ! i = e)"
    by (rule in_set_conv_nth)
  also have "\<dots> \<longleftrightarrow> (\<exists>i<length pd. e = stat_at pd i)"
    using values_init_nth [OF d] by (auto simp: values_init_length [OF d])
  finally show ?thesis .
qed

lemma get_by_cdf_above:
  assumes ne: "pd \<noteq> []" and d: "distinct (map fst pd)"
    and pos: "\<forall>p\<in>set (map snd pd). (0::int) < p"
    and v: "total (Statistics_init pd) \<le> v"
  shows "get_by_cdf (Statistics_init pd) v = Inr (last (Statistics_values (Statistics_init pd)))"
proof -
  let ?k = "length pd - 1"
  from ne have k: "?k < length pd" "\<not> Suc ?k < length pd" by simp_all
  from ne have "Statistics_values (Statistics_init pd) \<noteq> []"
    using values_init_length [OF d] by auto
  then have "last (Statistics_values (Statistics_init pd)) =
      Statistics_values (Statistics_init pd) ! ?k"
    by (simp add: last_conv_nth values_init_length [OF d])
  also have "\<dots> = stat_at pd ?k" by (rule values_init_nth [OF d k(1)])
  finally have l: "last (Statistics_values (Statistics_init pd)) = stat_at pd ?k" .
  from stat_at_bounds(1,3) [OF pos k(1)] v have "cdf (stat_at pd ?k) \<le> v"
    unfolding total_init [OF d] by linarith
  from get_by_cdf_found [OF d pos k(1) this] k(2) show ?thesis unfolding l by simp
qed

lemma map_prob_table_from: "map (prob \<circ> snd) (table_from t pd) = map snd pd"
  by (induction t pd rule: table_from.induct) auto

lemma entries_keys_init:
  "distinct (map fst pd) \<Longrightarrow> fst ` set (entries (stats (FSECoder_init pd))) = fst ` set pd"
  by (metis FSECoder.select_convs(1) FSECoder_init_def entries_init map_fst_table_from set_map)

text \<open>
  With an entry of frequency zero, which the constructor stores as it is given,
  \<open>divmod\<close> raises at that symbol before a later absent symbol is looked up.
\<close>

lemma encode_zero_frequency_first:
  "encode (FSECoder_init [(CHR ''a'', 0)]) ''az'' = Inl ZeroDivisionError"
  by code_simp

section \<open>The claims\<close>

subsection \<open>C1: decoding an encoding gives the sequence back\<close>

text \<open>
  C1. For the coder built from a mapping (distinct keys) of symbols to positive integer
  frequencies and every sequence of symbols of that mapping, \<open>encode\<close> returns an
  integer and \<open>decode\<close> of that integer returns the sequence; \<open>encode\<close> of the empty
  sequence is 0 and \<open>decode\<close> of 0 is the empty sequence. The mapping need not even be
  non-empty: over the empty mapping the only sequence is the empty one.
\<close>

theorem encode_decode_roundtrip:
  assumes "distinct (map fst prob_dict)"
    and "\<forall>p\<in>set (map snd prob_dict). 0 < p"
    and "set symbs \<subseteq> fst ` set prob_dict"
  shows "(\<exists>n. encode (FSECoder_init prob_dict) symbs = Inr n \<and>
              decode (FSECoder_init prob_dict) n = Some (Inr symbs)) \<and>
         encode (FSECoder_init prob_dict) [] = Inr 0 \<and>
         decode (FSECoder_init prob_dict) 0 = Some (Inr [])"
proof -
  let ?c = "FSECoder_init prob_dict"
  from encode_loop_known [OF assms(1,2) _ assms(3), of 0] obtain n where
    n: "encode_loop ?c 0 symbs = Inr n"
      "\<forall>acc. decode_loop ?c n acc = decode_loop ?c 0 (symbs @ acc)"
    by auto
  from n(2) have "decode_loop ?c n [] = Some (Inr symbs)"
    by (simp add: decode_loop_done)
  with n(1) have "\<exists>n. encode ?c symbs = Inr n \<and> decode ?c n = Some (Inr symbs)"
    by (auto simp: encode_def decode_def)
  moreover have "encode ?c [] = Inr 0" by (simp add: encode_def)
  moreover have "decode ?c 0 = Some (Inr [])" by (simp add: decode_def decode_loop_done)
  ultimately show ?thesis by blast
qed

text \<open>The round trip at the table \<open>{'a': 1, 'b': 1}\<close> and the sequence \<open>abba\<close>.\<close>

theorem encode_decode_roundtrip_witness:
  "(\<exists>n. encode (FSECoder_init [(CHR ''a'', 1), (CHR ''b'', 1)]) ''abba'' = Inr n \<and>
        decode (FSECoder_init [(CHR ''a'', 1), (CHR ''b'', 1)]) n = Some (Inr ''abba'')) \<and>
   encode (FSECoder_init [(CHR ''a'', 1), (CHR ''b'', 1)]) [] = Inr 0 \<and>
   decode (FSECoder_init [(CHR ''a'', 1), (CHR ''b'', 1)]) 0 = Some (Inr [])"
  using encode_decode_roundtrip [of "[(CHR ''a'', 1), (CHR ''b'', 1)]" "''abba''"]
  by simp

subsection \<open>C2: the scenario of the table with two symbols\<close>

text \<open>
  C2. For the table built from \<open>{'a': 1, 'b': 1}\<close> the total is 3, \<open>a\<close> has cdf 1 and
  \<open>b\<close> has cdf 2; \<open>encode\<close> of \<open>['a', 'b']\<close> returns 5 and \<open>decode\<close> of 5 returns
  \<open>['a', 'b']\<close>.
\<close>

theorem encode_decode_ab:
  "Statistics_init [(CHR ''a'', 1), (CHR ''b'', 1)] =
     \<lparr>entries = [(CHR ''a'', \<lparr>symb = CHR ''a'', prob = 1, cdf = 1\<rparr>),
                 (CHR ''b'', \<lparr>symb = CHR ''b'', prob = 1, cdf = 2\<rparr>)],
      total = 3\<rparr> \<and>
   encode (FSECoder_init [(CHR ''a'', 1), (CHR ''b'', 1)]) ''ab'' = Inr 5 \<and>
   decode (FSECoder_init [(CHR ''a'', 1), (CHR ''b'', 1)]) 5 = Some (Inr ''ab'')"
  by code_simp

subsection \<open>C3: the ranges of the table\<close>

text \<open>
  C3. For the table built from a non-empty mapping (distinct keys) of symbols to positive
  integer frequencies: the values keep the symbols and frequencies in insertion order;
  every \<open>cdf\<close> is at least 1; the \<open>cdf\<close>s are strictly increasing in insertion order;
  \<open>cdf + prob\<close> of an entry is the \<open>cdf\<close> of the next one, and of the last one it is
  \<open>total\<close>; \<open>total\<close> is 1 plus the sum of the frequencies; a value lies in
  \<open>[1, total)\<close> exactly when it lies in the range \<open>[cdf, cdf + prob)\<close> of some entry
  (no gap), and it lies in the range of at most one entry (no overlap).
\<close>

theorem Statistics_init_partition:
  assumes ne: "prob_dict \<noteq> []"
    and d: "distinct (map fst prob_dict)"
    and pos: "\<forall>p\<in>set (map snd prob_dict). 0 < p"
  shows
    "(let st = Statistics_init prob_dict; vs = Statistics_values st in
        map symb vs = map fst prob_dict \<and> map prob vs = map snd prob_dict \<and>
        (\<forall>i<length vs. 1 \<le> cdf (vs ! i)) \<and>
        (\<forall>i j. i < j \<and> j < length vs \<longrightarrow> cdf (vs ! i) < cdf (vs ! j)) \<and>
        (\<forall>i. Suc i < length vs \<longrightarrow> cdf (vs ! i) + prob (vs ! i) = cdf (vs ! Suc i)) \<and>
        cdf (last vs) + prob (last vs) = total st \<and>
        total st = 1 + sum_list (map snd prob_dict) \<and>
        (\<forall>v. (1 \<le> v \<and> v < total st) \<longleftrightarrow>
             (\<exists>i<length vs. cdf (vs ! i) \<le> v \<and> v < cdf (vs ! i) + prob (vs ! i))) \<and>
        (\<forall>v i j. i < length vs \<and> cdf (vs ! i) \<le> v \<and> v < cdf (vs ! i) + prob (vs ! i) \<and>
                 j < length vs \<and> cdf (vs ! j) \<le> v \<and> v < cdf (vs ! j) + prob (vs ! j) \<longrightarrow>
                 i = j))"
proof -
  let ?st = "Statistics_init prob_dict"
  let ?vs = "Statistics_values ?st"
  note len = values_init_length [OF d]
  note nth = values_init_nth [OF d]
  note T = total_init [OF d]
  have symbs: "map symb ?vs = map fst prob_dict"
    by (rule nth_equalityI) (simp_all add: len nth)
  have probs: "map prob ?vs = map snd prob_dict"
    by (rule nth_equalityI) (simp_all add: len nth)
  have ge1: "\<forall>i<length ?vs. 1 \<le> cdf (?vs ! i)"
  proof (intro allI impI)
    fix i assume "i < length ?vs"
    then have b: "i < length prob_dict" by (simp add: len)
    from stat_at_bounds(2) [OF pos b] show "1 \<le> cdf (?vs ! i)" by (simp only: nth [OF b])
  qed
  have incr: "\<forall>i j. i < j \<and> j < length ?vs \<longrightarrow> cdf (?vs ! i) < cdf (?vs ! j)"
  proof (intro allI impI)
    fix i j assume ij: "i < j \<and> j < length ?vs"
    then have b: "i < j" "j < length prob_dict" "i < length prob_dict" by (simp_all add: len)
    from stat_at_cdf_less [OF pos b(1,2)] stat_at_bounds(1) [OF pos b(3)]
    have "cdf (stat_at prob_dict i) < cdf (stat_at prob_dict j)" by linarith
    then show "cdf (?vs ! i) < cdf (?vs ! j)" by (simp only: nth [OF b(2)] nth [OF b(3)])
  qed
  have adj: "\<forall>i. Suc i < length ?vs \<longrightarrow> cdf (?vs ! i) + prob (?vs ! i) = cdf (?vs ! Suc i)"
  proof (intro allI impI)
    fix i assume "Suc i < length ?vs"
    then have b: "Suc i < length prob_dict" "i < length prob_dict" by (simp_all add: len)
    from stat_at_bounds(4) [OF pos b(2)] b(1)
    have "cdf (stat_at prob_dict i) + prob (stat_at prob_dict i) = cdf (stat_at prob_dict (Suc i))"
      by simp
    then show "cdf (?vs ! i) + prob (?vs ! i) = cdf (?vs ! Suc i)"
      by (simp only: nth [OF b(1)] nth [OF b(2)])
  qed
  have lastv: "cdf (last ?vs) + prob (last ?vs) = total ?st"
  proof -
    let ?k = "length prob_dict - 1"
    from ne have k: "?k < length prob_dict" "Suc ?k = length prob_dict" by simp_all
    from ne have "?vs \<noteq> []" using len by auto
    then have "last ?vs = ?vs ! ?k" by (simp add: last_conv_nth len)
    also have "\<dots> = stat_at prob_dict ?k" by (rule nth [OF k(1)])
    finally have l: "last ?vs = stat_at prob_dict ?k" .
    have "sum_list (take (Suc ?k) (map snd prob_dict)) = sum_list (map snd prob_dict)"
      by (simp only: k(2)) simp
    then show ?thesis
      unfolding l T using k(1) sum_take_Suc [of ?k "map snd prob_dict"] by simp
  qed
  have cover: "\<forall>v. (1 \<le> v \<and> v < total ?st) \<longleftrightarrow>
             (\<exists>i<length ?vs. cdf (?vs ! i) \<le> v \<and> v < cdf (?vs ! i) + prob (?vs ! i))"
  proof (intro allI iffI)
    fix v assume "1 \<le> v \<and> v < total ?st"
    then have "1 \<le> v" "v < 1 + sum_list (map snd prob_dict)" by (simp_all add: T)
    from stat_at_range_exists [OF pos this] obtain i where i: "i < length prob_dict"
      "cdf (stat_at prob_dict i) \<le> v" "v < cdf (stat_at prob_dict i) + prob (stat_at prob_dict i)"
      by blast
    then have "i < length ?vs \<and> cdf (?vs ! i) \<le> v \<and> v < cdf (?vs ! i) + prob (?vs ! i)"
      by (simp only: len nth [OF i(1)])
    then show "\<exists>i<length ?vs. cdf (?vs ! i) \<le> v \<and> v < cdf (?vs ! i) + prob (?vs ! i)"
      by blast
  next
    fix v assume "\<exists>i<length ?vs. cdf (?vs ! i) \<le> v \<and> v < cdf (?vs ! i) + prob (?vs ! i)"
    then obtain i where i: "i < length prob_dict"
      and r: "cdf (?vs ! i) \<le> v" "v < cdf (?vs ! i) + prob (?vs ! i)"
      by (auto simp: len)
    from r have r': "cdf (stat_at prob_dict i) \<le> v"
      "v < cdf (stat_at prob_dict i) + prob (stat_at prob_dict i)"
      by (simp_all only: nth [OF i])
    from stat_at_bounds(2,3) [OF pos i] r' show "1 \<le> v \<and> v < total ?st"
      unfolding T by linarith
  qed
  have uniq: "\<forall>v i j. i < length ?vs \<and> cdf (?vs ! i) \<le> v \<and> v < cdf (?vs ! i) + prob (?vs ! i) \<and>
                 j < length ?vs \<and> cdf (?vs ! j) \<le> v \<and> v < cdf (?vs ! j) + prob (?vs ! j) \<longrightarrow>
                 i = j"
  proof (intro allI impI, elim conjE)
    fix v i j
    assume i: "i < length ?vs" and ri: "cdf (?vs ! i) \<le> v" "v < cdf (?vs ! i) + prob (?vs ! i)"
      and j: "j < length ?vs" and rj: "cdf (?vs ! j) \<le> v" "v < cdf (?vs ! j) + prob (?vs ! j)"
    from i j have b: "i < length prob_dict" "j < length prob_dict" by (simp_all add: len)
    from ri have ri': "cdf (stat_at prob_dict i) \<le> v"
      "v < cdf (stat_at prob_dict i) + prob (stat_at prob_dict i)"
      by (simp_all only: nth [OF b(1)])
    from rj have rj': "cdf (stat_at prob_dict j) \<le> v"
      "v < cdf (stat_at prob_dict j) + prob (stat_at prob_dict j)"
      by (simp_all only: nth [OF b(2)])
    show "i = j" by (rule stat_at_range_unique [OF pos b(1) ri' b(2) rj'])
  qed
  show ?thesis
    unfolding Let_def
    by (intro conjI symbs probs ge1 incr adj lastv T cover uniq)
qed

text \<open>
  The table \<open>{'a': 2, 'b': 1, 'c': 3}\<close>, of total 7, with the quantified parts taken at
  concrete positions and at the value 5.
\<close>

theorem Statistics_init_partition_witness:
  "(let st = Statistics_init [(CHR ''a'', 2), (CHR ''b'', 1), (CHR ''c'', 3)];
        vs = Statistics_values st in
        map symb vs = ''abc'' \<and> map prob vs = [2, 1, 3] \<and>
        1 \<le> cdf (vs ! 0) \<and>
        cdf (vs ! 0) < cdf (vs ! 2) \<and>
        cdf (vs ! 1) + prob (vs ! 1) = cdf (vs ! 2) \<and>
        cdf (last vs) + prob (last vs) = total st \<and>
        total st = 7 \<and>
        (\<exists>i<length vs. cdf (vs ! i) \<le> 5 \<and> 5 < cdf (vs ! i) + prob (vs ! i)))"
proof -
  let ?st = "Statistics_init [(CHR ''a'', 2::int), (CHR ''b'', 1), (CHR ''c'', 3)]"
  let ?vs = "Statistics_values ?st"
  have ne: "[(CHR ''a'', 2::int), (CHR ''b'', 1), (CHR ''c'', 3)] \<noteq> []" by simp
  have d: "distinct (map fst [(CHR ''a'', 2::int), (CHR ''b'', 1), (CHR ''c'', 3)])" by simp
  have pos: "\<forall>p\<in>set (map snd [(CHR ''a'', 2::int), (CHR ''b'', 1), (CHR ''c'', 3)]). 0 < p" by simp
  note inst = Statistics_init_partition [OF ne d pos, unfolded Let_def]
  note r1 = inst [THEN conjunct2]
  note r2 = r1 [THEN conjunct2]
  note r3 = r2 [THEN conjunct2]
  note r4 = r3 [THEN conjunct2]
  note r5 = r4 [THEN conjunct2]
  note r6 = r5 [THEN conjunct2]
  note r7 = r6 [THEN conjunct2]
  have len: "length ?vs = 3" by code_simp
  have "map symb ?vs = ''abc''" using inst [THEN conjunct1] by simp
  moreover have "map prob ?vs = [2, 1, 3]" using r1 [THEN conjunct1] by simp
  moreover have "1 \<le> cdf (?vs ! 0)" using r2 [THEN conjunct1, rule_format, of 0] len by simp
  moreover have "cdf (?vs ! 0) < cdf (?vs ! 2)"
    using r3 [THEN conjunct1, rule_format, of 0 2] len by simp
  moreover have "cdf (?vs ! 1) + prob (?vs ! 1) = cdf (?vs ! 2)"
    using r4 [THEN conjunct1, rule_format, of 1] len by (simp add: numeral_2_eq_2)
  moreover have "cdf (last ?vs) + prob (last ?vs) = total ?st" by (rule r5 [THEN conjunct1])
  moreover have t: "total ?st = 7" using r6 [THEN conjunct1] by simp
  moreover have "\<exists>i<length ?vs. cdf (?vs ! i) \<le> 5 \<and> 5 < cdf (?vs ! i) + prob (?vs ! i)"
    using r7 [THEN conjunct1, rule_format, of 5] t by simp
  ultimately show ?thesis unfolding Let_def by blast
qed

subsection \<open>C4: lookup by cumulative value\<close>

text \<open>
  C4, as stated, at the table \<open>{'a': 1, 'b': 1}\<close>, whose ranges are \<open>[1, 2)\<close> and
  \<open>[2, 3)\<close> and whose total is 3. The value 3 lies outside both ranges, yet
  \<open>get_by_cdf\<close> does not fail: it returns the entry of \<open>b\<close>. The value 0 makes it
  fail, yet 0 is neither negative nor greater than or equal to the total.
\<close>

theorem get_by_cdf_counterexample:
  "Statistics_values (Statistics_init [(CHR ''a'', 1), (CHR ''b'', 1)]) =
     [\<lparr>symb = CHR ''a'', prob = 1, cdf = 1\<rparr>, \<lparr>symb = CHR ''b'', prob = 1, cdf = 2\<rparr>] \<and>
   total (Statistics_init [(CHR ''a'', 1), (CHR ''b'', 1)]) = 3 \<and>
   get_by_cdf (Statistics_init [(CHR ''a'', 1), (CHR ''b'', 1)]) 3 =
     Inr \<lparr>symb = CHR ''b'', prob = 1, cdf = 2\<rparr> \<and>
   get_by_cdf (Statistics_init [(CHR ''a'', 1), (CHR ''b'', 1)]) 0 = Inl ValueError"
  by code_simp

text \<open>
  C4, amended. For the table built from a non-empty mapping (distinct keys) of symbols to
  positive integer frequencies and every integer value: \<open>get_by_cdf\<close> returns the entry
  whose range \<open>[cdf, cdf + prob)\<close> contains the value whenever there is one, which is
  the case exactly for the values of \<open>[1, total)\<close> (the entry is unique, the result
  being one entry); it fails with \<open>ValueError\<close> if and only if the value is below 1;
  for a value greater than or equal to \<open>total\<close> it returns the last entry.
\<close>

theorem get_by_cdf_range:
  assumes ne: "prob_dict \<noteq> []"
    and d: "distinct (map fst prob_dict)"
    and pos: "\<forall>p\<in>set (map snd prob_dict). 0 < p"
  shows
    "(let st = Statistics_init prob_dict; vs = Statistics_values st in
        (\<forall>e\<in>set vs. cdf e \<le> v \<and> v < cdf e + prob e \<longrightarrow> get_by_cdf st v = Inr e) \<and>
        (1 \<le> v \<and> v < total st \<longrightarrow>
           (\<exists>e\<in>set vs. cdf e \<le> v \<and> v < cdf e + prob e \<and> get_by_cdf st v = Inr e)) \<and>
        (get_by_cdf st v = Inl ValueError \<longleftrightarrow> v < 1) \<and>
        (total st \<le> v \<longrightarrow> get_by_cdf st v = Inr (last vs)))"
proof -
  let ?st = "Statistics_init prob_dict"
  let ?vs = "Statistics_values ?st"
  have inside: "\<forall>e\<in>set ?vs. cdf e \<le> v \<and> v < cdf e + prob e \<longrightarrow> get_by_cdf ?st v = Inr e"
  proof (intro ballI impI)
    fix e assume "e \<in> set ?vs" and r: "cdf e \<le> v \<and> v < cdf e + prob e"
    then obtain i where i: "i < length prob_dict" and e: "e = stat_at prob_dict i"
      unfolding values_init_set [OF d] by blast
    from r show "get_by_cdf ?st v = Inr e"
      unfolding e by (intro get_by_cdf_in_range [OF d pos i]) simp_all
  qed
  have found: "1 \<le> v \<and> v < total ?st \<longrightarrow>
           (\<exists>e\<in>set ?vs. cdf e \<le> v \<and> v < cdf e + prob e \<and> get_by_cdf ?st v = Inr e)"
  proof
    assume "1 \<le> v \<and> v < total ?st"
    then have "1 \<le> v" "v < 1 + sum_list (map snd prob_dict)" by (simp_all add: total_init [OF d])
    from stat_at_range_exists [OF pos this] obtain i where i: "i < length prob_dict"
      and r: "cdf (stat_at prob_dict i) \<le> v"
        "v < cdf (stat_at prob_dict i) + prob (stat_at prob_dict i)"
      by blast
    have "stat_at prob_dict i \<in> set ?vs" unfolding values_init_set [OF d] using i by blast
    moreover have "get_by_cdf ?st v = Inr (stat_at prob_dict i)"
      by (rule get_by_cdf_in_range [OF d pos i r])
    ultimately show "\<exists>e\<in>set ?vs. cdf e \<le> v \<and> v < cdf e + prob e \<and> get_by_cdf ?st v = Inr e"
      using r by blast
  qed
  have above: "total ?st \<le> v \<longrightarrow> get_by_cdf ?st v = Inr (last ?vs)"
    using get_by_cdf_above [OF ne d pos] by blast
  have err: "get_by_cdf ?st v = Inl ValueError \<longleftrightarrow> v < 1"
  proof
    assume "v < 1"
    then show "get_by_cdf ?st v = Inl ValueError" by (rule get_by_cdf_below [OF d pos])
  next
    assume e: "get_by_cdf ?st v = Inl ValueError"
    show "v < 1"
    proof (rule ccontr)
      assume "\<not> v < 1"
      then have "1 \<le> v" by simp
      then consider "1 \<le> v \<and> v < total ?st" | "total ?st \<le> v" by linarith
      then show False
      proof cases
        case 1
        with found e show False by auto
      next
        case 2
        with above e show False by simp
      qed
    qed
  qed
  show ?thesis unfolding Let_def by (intro conjI inside found err above)
qed

text \<open>
  The table \<open>{'a': 2, 'b': 1, 'c': 3}\<close>, of total 7: the value 3 in the range of \<open>b\<close>, the value
  0 below every range, the value 9 above the total.
\<close>

theorem get_by_cdf_range_witness:
  "(let st = Statistics_init [(CHR ''a'', 2), (CHR ''b'', 1), (CHR ''c'', 3)] in
      get_by_cdf st 3 = Inr \<lparr>symb = CHR ''b'', prob = 1, cdf = 3\<rparr> \<and>
      get_by_cdf st 0 = Inl ValueError \<and>
      get_by_cdf st 9 = Inr (last (Statistics_values st)))"
proof -
  let ?st = "Statistics_init [(CHR ''a'', 2::int), (CHR ''b'', 1), (CHR ''c'', 3)]"
  let ?vs = "Statistics_values ?st"
  have ne: "[(CHR ''a'', 2::int), (CHR ''b'', 1), (CHR ''c'', 3)] \<noteq> []" by simp
  have d: "distinct (map fst [(CHR ''a'', 2::int), (CHR ''b'', 1), (CHR ''c'', 3)])" by simp
  have pos: "\<forall>p\<in>set (map snd [(CHR ''a'', 2::int), (CHR ''b'', 1), (CHR ''c'', 3)]). 0 < p" by simp
  have mem: "\<lparr>symb = CHR ''b'', prob = 1, cdf = 3\<rparr> \<in> set ?vs" by code_simp
  have t: "total ?st \<le> 9" by code_simp
  from get_by_cdf_range [OF ne d pos, of 3, unfolded Let_def] mem
  have "get_by_cdf ?st 3 = Inr \<lparr>symb = CHR ''b'', prob = 1, cdf = 3\<rparr>" by fastforce
  moreover from get_by_cdf_range [OF ne d pos, of 0, unfolded Let_def]
  have "get_by_cdf ?st 0 = Inl ValueError" by simp
  moreover from get_by_cdf_range [OF ne d pos, of 9, unfolded Let_def] t
  have "get_by_cdf ?st 9 = Inr (last ?vs)" by blast
  ultimately show ?thesis unfolding Let_def by blast
qed

subsection \<open>C5: what the constructor accepts\<close>

text \<open>
  C5, as stated, at the empty mapping, at \<open>{'a': 0}\<close> and at \<open>{'a': 2, 'b': -1}\<close>: the
  constructor returns a table each time and raises nothing.
\<close>

theorem Statistics_construct_counterexample:
  "Statistics_construct ([] :: (char \<times> int) list) = Inr \<lparr>entries = [], total = 1\<rparr> \<and>
   Statistics_construct [(CHR ''a'', 0)] =
     Inr \<lparr>entries = [(CHR ''a'', \<lparr>symb = CHR ''a'', prob = 0, cdf = 1\<rparr>)], total = 1\<rparr> \<and>
   Statistics_construct [(CHR ''a'', 2), (CHR ''b'', - 1)] =
     Inr \<lparr>entries = [(CHR ''a'', \<lparr>symb = CHR ''a'', prob = 2, cdf = 1\<rparr>),
                     (CHR ''b'', \<lparr>symb = CHR ''b'', prob = - 1, cdf = 3\<rparr>)], total = 2\<rparr>"
  by code_simp

text \<open>
  C5, amended. Constructing a table from any mapping, the empty one and those with
  frequencies that are not positive included, does not fail: it returns the table with
  the symbols and the frequencies as given, in order, and with \<open>total\<close> equal to 1
  plus the sum of the frequencies.
\<close>

theorem Statistics_construct_returns:
  assumes "distinct (map fst prob_dict)"
  shows "\<exists>st. Statistics_construct prob_dict = Inr st \<and>
              map fst (entries st) = map fst prob_dict \<and>
              map prob (Statistics_values st) = map snd prob_dict \<and>
              total st = 1 + sum_list (map snd prob_dict)"
  by (simp add: Statistics_construct_def Statistics_init_eq [OF assms] Statistics_values_def
      map_prob_table_from)

text \<open>The mapping \<open>{'a': 0, 'b': -2}\<close>.\<close>

theorem Statistics_construct_returns_witness:
  "\<exists>st. Statistics_construct [(CHR ''a'', 0), (CHR ''b'', - 2)] = Inr st \<and>
        map fst (entries st) = ''ab'' \<and>
        map prob (Statistics_values st) = [0, - 2] \<and>
        total st = - 1"
  using Statistics_construct_returns [of "[(CHR ''a'', 0), (CHR ''b'', - 2)]"] by simp

subsection \<open>C6: encoding a symbol the table does not have\<close>

text \<open>
  C6. For every table whose entries all have a frequency other than zero, as every
  table of positive frequencies has, and every sequence with at least one symbol absent
  from the table, \<open>encode\<close> fails with \<open>KeyError\<close>, the error of the lookup of an
  unknown symbol, and returns no integer, partial or zero.
\<close>

theorem encode_unknown_symbol:
  assumes "\<exists>s\<in>set symbs. s \<notin> fst ` set (entries (stats c))"
    and "\<forall>st\<in>set (Statistics_values (stats c)). prob st \<noteq> 0"
  shows "encode c symbs = Inl KeyError \<and> (\<forall>n. encode c symbs \<noteq> Inr n)"
proof -
  from assms(2) have "\<forall>st\<in>snd ` set (entries (stats c)). prob st \<noteq> 0"
    by (simp add: Statistics_values_def)
  from encode_loop_unknown_nonzero [OF assms(1) this]
  have "encode c symbs = Inl KeyError" by (simp add: encode_def)
  then show ?thesis by simp
qed

text \<open>The table \<open>{'a': 1, 'b': 1}\<close> and the sequence \<open>abz\<close>.\<close>

theorem encode_unknown_symbol_witness:
  "encode (FSECoder_init [(CHR ''a'', 1), (CHR ''b'', 1)]) ''abz'' = Inl KeyError"
proof -
  let ?c = "FSECoder_init [(CHR ''a'', 1::int), (CHR ''b'', 1)]"
  have absent: "\<exists>s\<in>set ''abz''. s \<notin> fst ` set (entries (stats ?c))"
    by (simp add: FSECoder_init_def Statistics_init_def Statistics_setitem_def)
  have nonzero: "\<forall>st\<in>set (Statistics_values (stats ?c)). prob st \<noteq> 0"
    by (simp add: FSECoder_init_def Statistics_init_def Statistics_setitem_def
        Statistics_values_def)
  from encode_unknown_symbol [OF absent nonzero] show ?thesis by simp
qed

subsection \<open>C7: decoding an arbitrary non-negative integer\<close>

text \<open>
  C7, as stated, at the table \<open>{'a': 1, 'b': 1}\<close> and the integer 3, which no sequence
  encodes to: \<open>divmod(3, 3)\<close> is \<open>(1, 0)\<close> and \<open>get_by_cdf(0)\<close> raises \<open>ValueError\<close>.
\<close>

theorem decode_invalid_counterexample:
  "decode (FSECoder_init [(CHR ''a'', 1), (CHR ''b'', 1)]) 3 = Some (Inl ValueError)"
  by code_simp

text \<open>
  C7, amended. For the coder built from a mapping (distinct keys) of symbols to positive
  integer frequencies and every non-negative integer, \<open>decode\<close> runs to completion:
  it returns a sequence or raises \<open>ValueError\<close>, and no other error. It raises
  \<open>ValueError\<close> when the integer is a positive multiple of \<open>total\<close> (the remainder 0
  is in no range), and it returns the sequence when the integer is the result of
  \<open>encode\<close> on a sequence with that coder.
\<close>

theorem decode_completes:
  assumes d: "distinct (map fst prob_dict)"
    and pos: "\<forall>p\<in>set (map snd prob_dict). 0 < p"
    and enc: "0 \<le> enc"
  shows "(decode (FSECoder_init prob_dict) enc = Some (Inl ValueError) \<or>
          (\<exists>symbs. decode (FSECoder_init prob_dict) enc = Some (Inr symbs))) \<and>
         (0 < enc \<and> enc mod total (stats (FSECoder_init prob_dict)) = 0 \<longrightarrow>
            decode (FSECoder_init prob_dict) enc = Some (Inl ValueError)) \<and>
         (\<forall>symbs. encode (FSECoder_init prob_dict) symbs = Inr enc \<longrightarrow>
            decode (FSECoder_init prob_dict) enc = Some (Inr symbs))"
proof -
  let ?c = "FSECoder_init prob_dict"
  have total: "decode ?c enc = Some (Inl ValueError) \<or> (\<exists>symbs. decode ?c enc = Some (Inr symbs))"
    unfolding decode_def by (rule decode_loop_total [OF d pos])
  have zero: "0 < enc \<and> enc mod total (stats ?c) = 0 \<longrightarrow> decode ?c enc = Some (Inl ValueError)"
  proof
    assume a: "0 < enc \<and> enc mod total (stats ?c) = 0"
    then have gt: "0 < enc" and "enc mod total (Statistics_init prob_dict) = 0"
      by (simp_all add: FSECoder_init_def)
    with decode_step_valid [OF d pos gt] have "decode_step ?c enc = Inl ValueError" by blast
    from decode_loop_error [OF gt this] show "decode ?c enc = Some (Inl ValueError)"
      by (simp add: decode_def)
  qed
  have inv: "\<forall>symbs. encode ?c symbs = Inr enc \<longrightarrow> decode ?c enc = Some (Inr symbs)"
  proof (intro allI impI)
    fix symbs assume e: "encode ?c symbs = Inr enc"
    have known: "set symbs \<subseteq> fst ` set prob_dict"
    proof (rule ccontr)
      assume "\<not> set symbs \<subseteq> fst ` set prob_dict"
      then have "\<exists>s\<in>set symbs. s \<notin> fst ` set (entries (stats ?c))"
        unfolding entries_keys_init [OF d] by blast
      from encode_loop_unknown [OF this, of 0] e show False by (simp add: encode_def)
    qed
    from encode_loop_known [OF d pos _ known, of 0] obtain n where
      n: "encode_loop ?c 0 symbs = Inr n"
        "\<forall>acc. decode_loop ?c n acc = decode_loop ?c 0 (symbs @ acc)"
      by auto
    from n(1) e have "n = enc" by (simp add: encode_def)
    with n(2) show "decode ?c enc = Some (Inr symbs)"
      by (simp add: decode_def decode_loop_done)
  qed
  show ?thesis by (intro conjI total zero inv)
qed

text \<open>
  The table \<open>{'a': 1, 'b': 1}\<close>: the integer 6, a multiple of the total 3, and the
  integer 5, the result of encoding \<open>ab\<close>.
\<close>

theorem decode_completes_witness:
  "decode (FSECoder_init [(CHR ''a'', 1), (CHR ''b'', 1)]) 6 = Some (Inl ValueError) \<and>
   encode (FSECoder_init [(CHR ''a'', 1), (CHR ''b'', 1)]) ''ab'' = Inr 5 \<and>
   decode (FSECoder_init [(CHR ''a'', 1), (CHR ''b'', 1)]) 5 = Some (Inr ''ab'')"
proof -
  let ?c = "FSECoder_init [(CHR ''a'', 1::int), (CHR ''b'', 1)]"
  have d: "distinct (map fst [(CHR ''a'', 1::int), (CHR ''b'', 1)])" by simp
  have pos: "\<forall>p\<in>set (map snd [(CHR ''a'', 1::int), (CHR ''b'', 1)]). 0 < p" by simp
  have m: "0 < (6::int) \<and> 6 mod total (stats ?c) = 0" by code_simp
  have e: "encode ?c ''ab'' = Inr 5" by code_simp
  from decode_completes [OF d pos, of 6] m have "decode ?c 6 = Some (Inl ValueError)" by simp
  moreover from decode_completes [OF d pos, of 5] e have "decode ?c 5 = Some (Inr ''ab'')" by simp
  ultimately show ?thesis using e by blast
qed

subsection \<open>C8: the loop of decode terminates\<close>

text \<open>
  C8. For the coder built from a mapping (distinct keys) of symbols to positive integer
  frequencies and every non-negative integer, the loop of \<open>decode\<close> terminates (the
  model, in which a loop that never ends is \<open>None\<close>, gives \<open>Some\<close> result), and every
  pass through the body of the loop that does not raise leaves an accumulator that is
  non-negative and strictly smaller than before.
\<close>

theorem decode_terminates:
  assumes d: "distinct (map fst prob_dict)"
    and pos: "\<forall>p\<in>set (map snd prob_dict). 0 < p"
    and enc: "0 \<le> enc"
  shows "(\<exists>r. decode (FSECoder_init prob_dict) enc = Some r) \<and>
         (\<forall>enc' s. 0 < enc \<and> decode_step (FSECoder_init prob_dict) enc = Inr (enc', s) \<longrightarrow>
            0 \<le> enc' \<and> enc' < enc)"
proof -
  have "\<exists>r. decode (FSECoder_init prob_dict) enc = Some r"
    using decode_loop_total [OF d pos, of enc "[]"] unfolding decode_def by blast
  moreover have "\<forall>enc' s. 0 < enc \<and> decode_step (FSECoder_init prob_dict) enc = Inr (enc', s) \<longrightarrow>
            0 \<le> enc' \<and> enc' < enc"
  proof (intro allI impI, elim conjE)
    fix enc' s
    assume gt: "0 < enc" and st: "decode_step (FSECoder_init prob_dict) enc = Inr (enc', s)"
    from decode_step_valid [OF d pos gt] st show "0 \<le> enc' \<and> enc' < enc" by auto
  qed
  ultimately show ?thesis by blast
qed

text \<open>
  The table \<open>{'a': 1, 'b': 1}\<close> and the integer 5: the first pass of the loop takes \<open>b\<close>
  off and leaves 1.
\<close>

theorem decode_terminates_witness:
  "(\<exists>r. decode (FSECoder_init [(CHR ''a'', 1), (CHR ''b'', 1)]) 5 = Some r) \<and>
   (\<exists>enc'. decode_step (FSECoder_init [(CHR ''a'', 1), (CHR ''b'', 1)]) 5 = Inr (enc', CHR ''b'') \<and>
           0 \<le> enc' \<and> enc' < 5)"
proof -
  let ?c = "FSECoder_init [(CHR ''a'', 1::int), (CHR ''b'', 1)]"
  have d: "distinct (map fst [(CHR ''a'', 1::int), (CHR ''b'', 1)])" by simp
  have pos: "\<forall>p\<in>set (map snd [(CHR ''a'', 1::int), (CHR ''b'', 1)]). 0 < p" by simp
  have enc: "(0::int) \<le> 5" by simp
  have st: "decode_step ?c 5 = Inr (1, CHR ''b'')" by code_simp
  from decode_terminates [OF d pos enc] st show ?thesis by simp
qed

subsection \<open>C9: only the empty sequence encodes to 0\<close>

text \<open>
  C9. For the coder built from a mapping (distinct keys) of symbols to positive integer
  frequencies, \<open>encode\<close> returns 0 if and only if the sequence is empty, and on a
  non-empty sequence of symbols of the mapping it returns an integer that is at least 1.
\<close>

theorem encode_zero_iff_empty:
  assumes d: "distinct (map fst prob_dict)"
    and pos: "\<forall>p\<in>set (map snd prob_dict). 0 < p"
  shows "(encode (FSECoder_init prob_dict) symbs = Inr 0 \<longleftrightarrow> symbs = []) \<and>
         (symbs \<noteq> [] \<and> set symbs \<subseteq> fst ` set prob_dict \<longrightarrow>
            (\<exists>n. encode (FSECoder_init prob_dict) symbs = Inr n \<and> 1 \<le> n))"
proof -
  let ?c = "FSECoder_init prob_dict"
  have known: "symbs \<noteq> [] \<and> set symbs \<subseteq> fst ` set prob_dict \<longrightarrow>
            (\<exists>n. encode ?c symbs = Inr n \<and> 1 \<le> n)"
  proof
    assume a: "symbs \<noteq> [] \<and> set symbs \<subseteq> fst ` set prob_dict"
    then have sub: "set symbs \<subseteq> fst ` set prob_dict" and ne: "symbs \<noteq> []" by simp_all
    from encode_loop_known [OF d pos _ sub, of 0] ne
    show "\<exists>n. encode ?c symbs = Inr n \<and> 1 \<le> n" by (auto simp: encode_def)
  qed
  have "encode ?c symbs = Inr 0 \<longleftrightarrow> symbs = []"
  proof
    assume "symbs = []"
    then show "encode ?c symbs = Inr 0" by (simp add: encode_def)
  next
    assume z: "encode ?c symbs = Inr 0"
    show "symbs = []"
    proof (rule ccontr)
      assume ne: "symbs \<noteq> []"
      show False
      proof (cases "set symbs \<subseteq> fst ` set prob_dict")
        case True
        with known ne z show False by auto
      next
        case False
        then have "\<exists>s\<in>set symbs. s \<notin> fst ` set (entries (stats ?c))"
          unfolding entries_keys_init [OF d] by blast
        from encode_loop_unknown [OF this, of 0] z show False by (simp add: encode_def)
      qed
    qed
  qed
  with known show ?thesis by blast
qed

text \<open>The table \<open>{'a': 1, 'b': 1}\<close> and the sequence \<open>ba\<close>.\<close>

theorem encode_zero_iff_empty_witness:
  "encode (FSECoder_init [(CHR ''a'', 1), (CHR ''b'', 1)]) ''ba'' \<noteq> Inr 0 \<and>
   (\<exists>n. encode (FSECoder_init [(CHR ''a'', 1), (CHR ''b'', 1)]) ''ba'' = Inr n \<and> 1 \<le> n)"
proof -
  have d: "distinct (map fst [(CHR ''a'', 1::int), (CHR ''b'', 1)])" by simp
  have pos: "\<forall>p\<in>set (map snd [(CHR ''a'', 1::int), (CHR ''b'', 1)]). 0 < p" by simp
  from encode_zero_iff_empty [OF d pos, of "''ba''"] show ?thesis by simp
qed

subsection \<open>C10: decoding a negative integer\<close>

text \<open>
  C10. For every table and every negative integer, \<open>decode\<close> returns the empty sequence
  and raises nothing: the guard \<open>enc > 0\<close> of the loop is false at once, as it is for 0.
\<close>

theorem decode_negative:
  "enc < 0 \<Longrightarrow> decode c enc = Some (Inr []) \<and> decode c enc = decode c 0"
  by (simp add: decode_def decode_loop_done)

text \<open>Decoding \<open>-7\<close> with the table \<open>{'a': 1, 'b': 1}\<close>.\<close>

theorem decode_negative_witness:
  "(-7::int) < 0 \<and> decode (FSECoder_init [(CHR ''a'', 1), (CHR ''b'', 1)]) (-7) = Some (Inr [])"
  using decode_negative [of "-7" "FSECoder_init [(CHR ''a'', 1), (CHR ''b'', 1)]"] by simp

end
